theory Spec2Isabelle
  imports Main "HOL-Library.Sublist"
begin

section \<open>JavaScript strings and numbers used by the components\<close>

text \<open>
  Strings are lists of 8-bit characters: the model covers the code units below 256.
  Numbers are mathematical integers; the components only ever compare page numbers
  against a page count, so the model agrees with IEEE doubles for page counts below
  \<open>2 ^ 53\<close>.
\<close>

text \<open>White space as \<open>String.prototype.trim\<close> and \<open>parseInt\<close> strip it (code units
  below 256): TAB, LF, VT, FF, CR, SP, NBSP.\<close>

definition isWhiteSpace :: "char \<Rightarrow> bool" where
  "isWhiteSpace c = (of_char c \<in> {9, 10, 11, 12, 13, 32, 160 :: nat})"

definition trimStart :: "string \<Rightarrow> string" where
  "trimStart s = dropWhile isWhiteSpace s"

definition trim :: "string \<Rightarrow> string" where
  "trim s = rev (dropWhile isWhiteSpace (rev (dropWhile isWhiteSpace s)))"

text \<open>\<open>s.split(c)\<close> for a one-character separator: always at least one piece.\<close>

fun split_on :: "char \<Rightarrow> string \<Rightarrow> string list" where
  "split_on c [] = [[]]"
| "split_on c (x # xs) =
     (if x = c then [] # split_on c xs
      else (case split_on c xs of
              [] \<Rightarrow> [[x]]
            | t # ts \<Rightarrow> (x # t) # ts))"

text \<open>The value of a character as a digit of radix \<open>R\<close>, if it is one.\<close>

definition radixDigit :: "nat \<Rightarrow> char \<Rightarrow> nat option" where
  "radixDigit R c =
     (let k = (of_char c :: nat);
          v = (if 48 \<le> k \<and> k \<le> 57 then Some (k - 48)
               else if 97 \<le> k \<and> k \<le> 122 then Some (k - 87)
               else if 65 \<le> k \<and> k \<le> 90 then Some (k - 55)
               else None)
      in case v of
           None \<Rightarrow> None
         | Some d \<Rightarrow> if d < R then Some d else None)"

text \<open>The longest prefix of radix-\<open>R\<close> digits, as digit values.\<close>

fun takeDigits :: "nat \<Rightarrow> string \<Rightarrow> nat list" where
  "takeDigits R [] = []"
| "takeDigits R (c # cs) =
     (case radixDigit R c of
        None \<Rightarrow> []
      | Some d \<Rightarrow> d # takeDigits R cs)"

definition digitsValue :: "nat \<Rightarrow> nat list \<Rightarrow> nat" where
  "digitsValue R ds = foldl (\<lambda>a d. a * R + d) 0 ds"

text \<open>
  \<open>parseInt(s)\<close> with no radix argument: leading white space is skipped, one sign is
  read, a \<open>0x\<close>/\<open>0X\<close> prefix selects radix 16, the longest digit prefix is the value and
  whatever follows is ignored. \<open>None\<close> is \<open>NaN\<close> (no digit).
\<close>

definition parseInt :: "string \<Rightarrow> int option" where
  "parseInt s =
     (let S = trimStart s;
          sign = (case S of c # _ \<Rightarrow> if c = CHR ''-'' then - 1 else (1 :: int) | [] \<Rightarrow> 1);
          S1 = (case S of
                  c # r \<Rightarrow> if c = CHR ''-'' \<or> c = CHR ''+'' then r else S
                | [] \<Rightarrow> S);
          hex = (take 2 S1 = ''0x'' \<or> take 2 S1 = ''0X'');
          R = (if hex then 16 else 10);
          S2 = (if hex then drop 2 S1 else S1);
          Z = takeDigits R S2
      in if Z = [] then None else Some (sign * int (digitsValue R Z)))"

text \<open>\<open>Number.prototype.toString\<close> on an integer: its decimal digits (JavaScript
  switches to exponent notation only from \<open>10 ^ 21\<close> on, far above any page number).\<close>

definition digitChar :: "nat \<Rightarrow> char" where
  "digitChar d = char_of (48 + d)"

fun natToString :: "nat \<Rightarrow> string" where
  "natToString n =
     (if n < 10 then [digitChar n] else natToString (n div 10) @ [digitChar (n mod 10)])"

declare natToString.simps [simp del]

definition numberToString :: "int \<Rightarrow> string" where
  "numberToString i = (if i < 0 then CHR ''-'' # natToString (nat (- i)) else natToString (nat i))"

section \<open>PDFManipulator: page ranges\<close>

text \<open>A JavaScript \<open>Set\<close> built from an array keeps the first occurrence of each value,
  in insertion order.\<close>

definition setAdd :: "'a list \<Rightarrow> 'a \<Rightarrow> 'a list" where
  "setAdd acc x = (if x \<in> set acc then acc else acc @ [x])"

definition newSet :: "'a list \<Rightarrow> 'a list" where
  "newSet xs = foldl setAdd [] xs"

text \<open>Truthiness of a number: neither \<open>NaN\<close> nor zero.\<close>

definition truthy :: "int option \<Rightarrow> bool" where
  "truthy v = (case v of None \<Rightarrow> False | Some k \<Rightarrow> k \<noteq> 0)"

text \<open>
  One iteration of the loop of \<open>parsePageRange\<close>: the pages that one comma-separated
  part pushes. A part containing a dash is split at dashes and the first two pieces are
  read as \<open>start\<close> and \<open>end\<close>; a comparison with \<open>NaN\<close> is false.
\<close>

definition partPages :: "int \<Rightarrow> string \<Rightarrow> int list" where
  "partPages totalPages part =
     (let trimmed = trim part in
      if CHR ''-'' \<in> set trimmed then
        (case map (\<lambda>s. parseInt (trim s)) (split_on CHR ''-'' trimmed) of
           Some start # Some end # _ \<Rightarrow>
             if truthy (Some start) \<and> truthy (Some end) \<and> start \<le> end
                \<and> start \<ge> 1 \<and> end \<le> totalPages
             then [start..end] else []
         | _ \<Rightarrow> [])
      else
        (case parseInt trimmed of
           Some pageNum \<Rightarrow> if pageNum \<ge> 1 \<and> pageNum \<le> totalPages then [pageNum] else []
         | None \<Rightarrow> []))"

definition parsePageRange :: "string \<Rightarrow> int \<Rightarrow> int list" where
  "parsePageRange rng totalPages =
     (let parts = split_on CHR '','' rng;
          pages = foldl (\<lambda>pages part. pages @ partPages totalPages part) [] parts
      in sort (newSet pages))"

section \<open>Files, toasts and downloads\<close>

text \<open>A browser \<open>File\<close>: name, size in bytes, MIME type and content.\<close>

record 'c File =
  f_name :: string
  f_size :: nat
  f_type :: string
  f_content :: 'c

datatype file_status = Uploading | Completed | StatusError

text \<open>\<open>UploadedFile\<close> of \<open>pages/Index.tsx\<close>.\<close>

record 'c UploadedFile =
  uf_id :: string
  uf_file :: "'c File"
  uf_name :: string
  uf_size :: nat
  uf_type :: string
  uf_progress :: nat
  uf_status :: file_status

record toast =
  title :: string
  description :: string
  destructive :: bool

text \<open>A file handed to the browser by clicking a generated link: its download name and
  the pages of the document that was passed to \<open>save\<close>. The pages of the file itself are
  \<open>savedPages\<close> of them (below).\<close>

record 'p download =
  d_name :: string
  d_pages :: "'p list"

section \<open>FileUpload: processFiles\<close>

text \<open>
  The callback of \<open>Array.from(fileList).forEach\<close>: \<open>files\<close> and the toasts shown so far
  are threaded through. \<open>newId\<close> stands for \<open>Math.random().toString(36).substr(2, 9)\<close>.
\<close>

definition processFile ::
  "string \<Rightarrow> 'c UploadedFile list \<times> toast list \<Rightarrow> 'c File
     \<Rightarrow> 'c UploadedFile list \<times> toast list" where
  "processFile newId st file =
     (let files = fst st; shown = snd st in
      if f_size file > 50 * 1024 * 1024 then
        (files, shown @ [\<lparr>title = ''File too large'',
                           description = f_name file @ '' exceeds 50MB limit'',
                           destructive = True\<rparr>])
      else
        let isImage = prefix ''image/'' (f_type file);
            isPDF = (f_type file = ''application/pdf'')
        in if \<not> isImage \<and> \<not> isPDF then
             (files, shown @ [\<lparr>title = ''Unsupported format'',
                                description = f_name file
                                  @ '' is not a supported image or PDF file'',
                                destructive = True\<rparr>])
           else
             (files @ [\<lparr>uf_id = newId, uf_file = file, uf_name = f_name file,
                         uf_size = f_size file, uf_type = f_type file,
                         uf_progress = 100, uf_status = Completed\<rparr>], shown))"

fun forEachFile ::
  "(nat \<Rightarrow> string) \<Rightarrow> nat \<Rightarrow> 'c UploadedFile list \<times> toast list \<Rightarrow> 'c File list
     \<Rightarrow> 'c UploadedFile list \<times> toast list" where
  "forEachFile ids i st [] = st"
| "forEachFile ids i st (file # rest) =
     forEachFile ids (Suc i) (processFile (ids i) st file) rest"

text \<open>The outcome of \<open>processFiles\<close>: the argument of \<open>onFilesUploaded\<close> when it was
  called, the toasts shown, and the final \<open>isProcessing\<close>.\<close>

record 'c upload_result =
  emitted :: "'c UploadedFile list option"
  shown :: "toast list"
  processing :: bool

definition processFiles :: "(nat \<Rightarrow> string) \<Rightarrow> 'c File list \<Rightarrow> 'c upload_result" where
  "processFiles ids fileList =
     (let st = forEachFile ids 0 ([], []) fileList;
          files = fst st
      in if length files > 0 then
           \<lparr>emitted = Some files,
            shown = snd st @ [\<lparr>title = ''Files uploaded successfully'',
                               description = natToString (length files) @ '' file''
                                 @ (if length files > 1 then ''s'' else [])
                                 @ '' ready for processing'',
                               destructive = False\<rparr>],
            processing = False\<rparr>
         else \<lparr>emitted = None, shown = snd st, processing = False\<rparr>)"

text \<open>The list the upload handler hands on: nothing when the callback is not called.\<close>

definition emittedFiles :: "'c upload_result \<Rightarrow> 'c UploadedFile list" where
  "emittedFiles r = (case emitted r of None \<Rightarrow> [] | Some fs \<Rightarrow> fs)"

section \<open>ImageConverter: rotation controls\<close>

text \<open>JavaScript's \<open>%\<close> on integers: the remainder takes the sign of the dividend.\<close>

definition js_rem :: "int \<Rightarrow> int \<Rightarrow> int" where
  "js_rem a b = sgn a * (\<bar>a\<bar> mod \<bar>b\<bar>)"

datatype rotation_control = RotateLeft | RotateRight | Slide int

text \<open>The three \<open>setRotation\<close> calls of the rotation controls.\<close>

fun setRotation :: "int \<Rightarrow> rotation_control \<Rightarrow> int" where
  "setRotation prev RotateLeft = js_rem (prev - 90) 360"
| "setRotation prev RotateRight = js_rem (prev + 90) 360"
| "setRotation prev (Slide v) = v"

text \<open>The rotation after a sequence of control events; \<open>useState(0)\<close> starts it at 0.\<close>

definition rotationAfter :: "rotation_control list \<Rightarrow> int" where
  "rotationAfter cs = foldl setRotation 0 cs"

section \<open>PDFManipulator: merge, split, compress\<close>

text \<open>
  The PDF library is not part of the repository. A loaded or created document is the
  list of its pages; the two calls that the components await and that can throw are
  parameters:
  \<^item> \<open>load\<close>: \<open>PDFDocument.load\<close> on a file's bytes, \<open>None\<close> when it throws;
  \<^item> \<open>save\<close>: whether \<open>save\<close> returns the bytes of a document (\<open>False\<close> when it throws).
\<close>

datatype pdf_error = LoadError | CopyError | SaveError | InvalidPageRange

datatype outcome = Done | Rejected | Failed pdf_error

text \<open>
  What \<open>save()\<close>, called with no options as the components call it, writes: the
  library adds one blank page to a document that has no page. \<open>blank\<close> stands for
  that page.
\<close>

definition savedPages :: "'p \<Rightarrow> 'p list \<Rightarrow> 'p list" where
  "savedPages blank pdf = (if pdf = [] then [blank] else pdf)"

text \<open>\<open>getPageIndices\<close> and \<open>copyPages\<close>: copying an index that names no page throws.\<close>

definition getPageIndices :: "'p list \<Rightarrow> int list" where
  "getPageIndices pdf = map int [0..<length pdf]"

definition copyPages :: "'p list \<Rightarrow> int list \<Rightarrow> 'p list option" where
  "copyPages pdf indices =
     (if list_all (\<lambda>i. 0 \<le> i \<and> i < int (length pdf)) indices
      then Some (map (\<lambda>i. pdf ! nat i) indices) else None)"

text \<open>The component: its props (\<open>files\<close>), the state it reads, and what it has shown
  and handed to the browser so far.\<close>

record ('c, 'p) manipulator =
  files :: "'c UploadedFile list"
  mergeOrder :: "string list"
  splitRange :: string
  splitMode :: string
  isProcessing :: bool
  toasts :: "toast list"
  downloads :: "'p download list"

text \<open>\<open>useState(files.map(f => f.id))\<close>, kept equal to it by the effect on \<open>files\<close>.\<close>

definition mount :: "'c UploadedFile list \<Rightarrow> string \<Rightarrow> string \<Rightarrow> ('c, 'p) manipulator" where
  "mount fs rng mode =
     \<lparr>files = fs, mergeOrder = map uf_id fs, splitRange = rng, splitMode = mode,
      isProcessing = False, toasts = [], downloads = []\<rparr>"

text \<open>The loop of \<open>mergePDFs\<close> over \<open>mergeOrder\<close>; \<open>merged\<close> is the list of pages added
  to \<open>mergedPdf\<close> so far.\<close>

fun mergeLoop ::
  "('c \<Rightarrow> 'p list option) \<Rightarrow> 'c UploadedFile list \<Rightarrow> string list \<Rightarrow> 'p list
     \<Rightarrow> pdf_error + 'p list" where
  "mergeLoop load fs [] merged = Inr merged"
| "mergeLoop load fs (fileId # rest) merged =
     (case find (\<lambda>f. uf_id f = fileId) fs of
        None \<Rightarrow> mergeLoop load fs rest merged
      | Some file \<Rightarrow>
          (case load (f_content (uf_file file)) of
             None \<Rightarrow> Inl LoadError
           | Some pdf \<Rightarrow>
               (case copyPages pdf (getPageIndices pdf) of
                  None \<Rightarrow> Inl CopyError
                | Some pages \<Rightarrow> mergeLoop load fs rest (merged @ pages))))"

definition mergePDFs ::
  "('c \<Rightarrow> 'p list option) \<Rightarrow> ('p list \<Rightarrow> bool) \<Rightarrow> ('c, 'p) manipulator
     \<Rightarrow> outcome \<times> ('c, 'p) manipulator" where
  "mergePDFs load save st =
     (if length (files st) < 2 then
        (Rejected,
         st\<lparr>toasts := toasts st @ [\<lparr>title = ''Not enough files'',
              description = ''Please select at least 2 PDF files to merge'',
              destructive = True\<rparr>]\<rparr>)
      else
        let failed = (\<lambda>e. (Failed e,
              st\<lparr>isProcessing := False,
                 toasts := toasts st @ [\<lparr>title = ''Merge failed'',
                   description = ''An error occurred during PDF merging'',
                   destructive = True\<rparr>]\<rparr>))
        in case mergeLoop load (files st) (mergeOrder st) [] of
             Inl e \<Rightarrow> failed e
           | Inr mergedPdf \<Rightarrow>
               if \<not> save mergedPdf then failed SaveError
               else
                 (Done,
                  st\<lparr>isProcessing := False,
                     downloads := downloads st
                       @ [\<lparr>d_name = ''merged_document.pdf'', d_pages = mergedPdf\<rparr>],
                     toasts := toasts st @ [\<lparr>title = ''Merge completed'',
                       description = natToString (length (files st))
                         @ '' PDF files merged successfully'',
                       destructive = False\<rparr>]\<rparr>))"

text \<open>\<open>file.name.split('.')[0]\<close>.\<close>

definition baseName :: "string \<Rightarrow> string" where
  "baseName n = (case split_on CHR ''.'' n of [] \<Rightarrow> [] | b # _ \<Rightarrow> b)"

text \<open>
  The loop of the individual mode of \<open>splitPDF\<close>: each iteration copies one page, saves
  the one-page document and clicks its download link before the next iteration starts.
  The result is the downloads made, in order, and the error thrown, if any.
\<close>

fun splitLoop ::
  "('p list \<Rightarrow> bool) \<Rightarrow> 'p list \<Rightarrow> string \<Rightarrow> int list
     \<Rightarrow> 'p download list \<times> pdf_error option" where
  "splitLoop save pdf fname [] = ([], None)"
| "splitLoop save pdf fname (pageNum # rest) =
     (case copyPages pdf [pageNum - 1] of
        None \<Rightarrow> ([], Some CopyError)
      | Some copied \<Rightarrow>
          (case copied of
             [] \<Rightarrow> ([], Some CopyError)
           | copiedPage # _ \<Rightarrow>
               if \<not> save [copiedPage] then ([], Some SaveError)
               else
                 let d = \<lparr>d_name = baseName fname @ ''_page_'' @ numberToString pageNum
                                    @ ''.pdf'',
                          d_pages = [copiedPage]\<rparr>;
                     r = splitLoop save pdf fname rest
                 in (d # fst r, snd r)))"

text \<open>The body of the \<open>try\<close> block of \<open>splitPDF\<close> up to the final toast: the downloads
  made, and either the error thrown or \<open>pages.length\<close>.\<close>

definition splitBody ::
  "('c \<Rightarrow> 'p list option) \<Rightarrow> ('p list \<Rightarrow> bool) \<Rightarrow> ('c, 'p) manipulator
     \<Rightarrow> 'c UploadedFile \<Rightarrow> 'p download list \<times> (pdf_error + nat)" where
  "splitBody load save st file =
     (case load (f_content (uf_file file)) of
        None \<Rightarrow> ([], Inl LoadError)
      | Some pdf \<Rightarrow>
          let pages = parsePageRange (splitRange st) (int (length pdf)) in
          if length pages = 0 then ([], Inl InvalidPageRange)
          else if splitMode st = ''range'' then
            (case copyPages pdf (map (\<lambda>p. p - 1) pages) of
               None \<Rightarrow> ([], Inl CopyError)
             | Some copiedPages \<Rightarrow>
                 if \<not> save copiedPages then ([], Inl SaveError)
                 else ([\<lparr>d_name = baseName (uf_name file) @ ''_pages_'' @ splitRange st
                                    @ ''.pdf'',
                         d_pages = copiedPages\<rparr>], Inr (length pages)))
          else
            (case splitLoop save pdf (uf_name file) pages of
               (ds, Some e) \<Rightarrow> (ds, Inl e)
             | (ds, None) \<Rightarrow> (ds, Inr (length pages))))"

definition splitPDF ::
  "('c \<Rightarrow> 'p list option) \<Rightarrow> ('p list \<Rightarrow> bool) \<Rightarrow> ('c, 'p) manipulator
     \<Rightarrow> outcome \<times> ('c, 'p) manipulator" where
  "splitPDF load save st =
     (case files st of
        [file] \<Rightarrow>
          if trim (splitRange st) = [] then
            (Rejected,
             st\<lparr>toasts := toasts st @ [\<lparr>title = ''Enter page range'',
                  description = ''Please specify which pages to extract'',
                  destructive = True\<rparr>]\<rparr>)
          else
            (case splitBody load save st file of
               (ds, Inl e) \<Rightarrow>
                 (Failed e,
                  st\<lparr>isProcessing := False,
                     downloads := downloads st @ ds,
                     toasts := toasts st @ [\<lparr>title = ''Split failed'',
                       description =
                         ''An error occurred during PDF splitting. Check your page range.'',
                       destructive = True\<rparr>]\<rparr>)
             | (ds, Inr k) \<Rightarrow>
                 (Done,
                  st\<lparr>isProcessing := False,
                     downloads := downloads st @ ds,
                     toasts := toasts st @ [\<lparr>title = ''Split completed'',
                       description = ''PDF split successfully into ''
                         @ (if splitMode st = ''range'' then ''1 file''
                            else natToString k @ '' files''),
                       destructive = False\<rparr>]\<rparr>))
      | _ \<Rightarrow>
          (Rejected,
           st\<lparr>toasts := toasts st @ [\<lparr>title = ''Select one PDF'',
                description = ''Please select exactly one PDF file to split'',
                destructive = True\<rparr>]\<rparr>))"


text \<open>An uploaded PDF as \<open>processFiles\<close> emits it, for the examples below.\<close>

definition pdfFile :: "string \<Rightarrow> string \<Rightarrow> 'c \<Rightarrow> 'c UploadedFile" where
  "pdfFile i n c =
     \<lparr>uf_id = i,
      uf_file = \<lparr>f_name = n, f_size = 1024, f_type = ''application/pdf'', f_content = c\<rparr>,
      uf_name = n, uf_size = 1024, uf_type = ''application/pdf'',
      uf_progress = 100, uf_status = Completed\<rparr>"

section \<open>The specification's vocabulary\<close>

text \<open>
  Modelled from the spec: \<open>stringify\<close> of the idempotence property (section 8) is not a
  function of the repository; it writes an ascending page list back as a comma-separated
  expression.
\<close>

fun joinWith :: "char \<Rightarrow> string list \<Rightarrow> string" where
  "joinWith c [] = []"
| "joinWith c [s] = s"
| "joinWith c (s # t # ts) = s @ c # joinWith c (t # ts)"

definition stringify :: "int list \<Rightarrow> string" where
  "stringify pages = joinWith CHR '','' (map numberToString pages)"

text \<open>
  Modelled from the spec: the grammar of section 4.1, "each token is either a single
  positive integer or \<open>start-end\<close>", read on the trimmed token. A token that is neither
  is malformed.
\<close>

definition isDigit :: "char \<Rightarrow> bool" where
  "isDigit c = (48 \<le> (of_char c :: nat) \<and> (of_char c :: nat) \<le> 57)"







text \<open>The second half of \<open>trim\<close>, for the proofs.\<close>

definition trimEnd :: "string \<Rightarrow> string" where
  "trimEnd s = rev (dropWhile isWhiteSpace (rev s))"

text \<open>The values of a string of decimal digits.\<close>

definition digitVals :: "string \<Rightarrow> nat list" where
  "digitVals s = map (\<lambda>c. of_char c - 48) s"

section \<open>Page-range resolution: order and duplicates\<close>

lemma foldl_setAdd_set: "set (foldl setAdd acc xs) = set acc \<union> set xs"
  by (induction xs arbitrary: acc) (auto simp: setAdd_def)

lemma foldl_setAdd_distinct: "distinct acc \<Longrightarrow> distinct (foldl setAdd acc xs)"
  by (induction xs arbitrary: acc) (auto simp: setAdd_def)

lemma set_newSet: "set (newSet xs) = set xs"
  by (simp add: newSet_def foldl_setAdd_set)

lemma distinct_newSet: "distinct (newSet xs)"
  by (simp add: newSet_def foldl_setAdd_distinct)

lemma foldl_push_concat:
  "foldl (\<lambda>pages part. pages @ f part) acc parts = acc @ concat (map f parts)"
  by (induction parts arbitrary: acc) auto

lemma parsePageRange_concat:
  "parsePageRange rng n = sort (newSet (concat (map (partPages n) (split_on CHR '','' rng))))"
  by (simp add: parsePageRange_def foldl_push_concat)

lemma parsePageRange_sorted: "sorted (parsePageRange rng n)"
  by (simp add: parsePageRange_concat)

lemma parsePageRange_distinct: "distinct (parsePageRange rng n)"
  by (simp add: parsePageRange_concat distinct_newSet)

lemma set_parsePageRange:
  "set (parsePageRange rng n) = (\<Union>part \<in> set (split_on CHR '','' rng). set (partPages n part))"
  by (simp add: parsePageRange_concat set_newSet)

lemma parsePageRange_sorted_list_of_set:
  "parsePageRange rng n =
     sorted_list_of_set (\<Union>part \<in> set (split_on CHR '','' rng). set (partPages n part))"
proof -
  have "sorted_list_of_set (set (parsePageRange rng n)) = parsePageRange rng n"
    using parsePageRange_sorted parsePageRange_distinct
    by (simp add: sorted_list_of_set.idem_if_sorted_distinct)
  then show ?thesis by (simp add: set_parsePageRange)
qed

lemma partPages_single_5: "partPages n ''5'' = (if 5 \<le> n then [5] else [])"
proof -
  have t: "trim ''5'' = ''5''" by code_simp
  have p: "parseInt ''5'' = Some 5" by code_simp
  show ?thesis by (simp add: partPages_def t p)
qed

lemma partPages_single_3: "partPages n ''3'' = (if 3 \<le> n then [3] else [])"
proof -
  have t: "trim ''3'' = ''3''" by code_simp
  have p: "parseInt ''3'' = Some 3" by code_simp
  show ?thesis by (simp add: partPages_def t p)
qed

lemma partPages_range_1_3: "partPages n ''1-3'' = (if 3 \<le> n then [1, 2, 3] else [])"
proof -
  have t: "trim ''1-3'' = ''1-3''" by code_simp
  have s: "map (\<lambda>s. parseInt (trim s)) (split_on CHR ''-'' ''1-3'') = [Some 1, Some 3]"
    by code_simp
  have u: "[1..3] = [1, 2, 3 :: int]" by code_simp
  show ?thesis unfolding partPages_def Let_def t s by (simp add: truthy_def u)
qed

lemma parsePageRange_5_1to3_3:
  assumes "5 \<le> n"
  shows "parsePageRange ''5,1-3,3'' n = [1, 2, 3, 5]"
proof -
  have s: "split_on CHR '','' ''5,1-3,3'' = [''5'', ''1-3'', ''3'']" by code_simp
  have r: "sort (newSet [5, 1, 2, 3, 3 :: int]) = [1, 2, 3, 5]" by code_simp
  show ?thesis using assms
    by (simp add: parsePageRange_concat s partPages_single_5 partPages_single_3
        partPages_range_1_3 r)
qed

lemma parsePageRange_1to3_2: "parsePageRange ''1-3,2'' 5 = [1, 2, 3]"
  by code_simp

section \<open>Reading decimal numerals\<close>

lemma isDigit_not_special:
  "isDigit c \<Longrightarrow> \<not> isWhiteSpace c \<and> c \<noteq> CHR ''-'' \<and> c \<noteq> CHR ''+'' \<and> c \<noteq> CHR '',''
     \<and> c \<noteq> CHR ''x'' \<and> c \<noteq> CHR ''X''"
  by (auto simp: isDigit_def isWhiteSpace_def)

lemma isDigit_radixDigit: "isDigit c \<Longrightarrow> radixDigit 10 c = Some (of_char c - 48)"
  by (auto simp: isDigit_def radixDigit_def Let_def)

lemma not_isDigit_radixDigit: "\<not> isDigit c \<Longrightarrow> radixDigit 10 c = None"
  by (auto simp: isDigit_def radixDigit_def Let_def)

lemma isDigit_digitChar: "d < 10 \<Longrightarrow> isDigit (digitChar d)"
  by (simp add: isDigit_def digitChar_def)

lemma of_char_digitChar: "d < 10 \<Longrightarrow> (of_char (digitChar d) :: nat) = 48 + d"
  by (simp add: digitChar_def)

lemma natToString_digits: "natToString n \<noteq> [] \<and> list_all isDigit (natToString n)"
proof (induction n rule: natToString.induct)
  case (1 n)
  show ?case
  proof (cases "n < 10")
    case True
    then show ?thesis by (subst (1 2) natToString.simps) (simp add: isDigit_digitChar)
  next
    case False
    with 1 show ?thesis by (subst (1 2) natToString.simps) (simp add: isDigit_digitChar)
  qed
qed

lemma takeDigits_digits:
  "list_all isDigit s \<Longrightarrow> takeDigits 10 (s @ r) = digitVals s @ takeDigits 10 r"
  by (induction s) (auto simp: digitVals_def isDigit_radixDigit)

lemma digitsValue_snoc: "digitsValue R (ds @ [d]) = digitsValue R ds * R + d"
  by (simp add: digitsValue_def)

lemma digitsValue_natToString: "digitsValue 10 (digitVals (natToString n)) = n"
proof (induction n rule: natToString.induct)
  case (1 n)
  show ?case
  proof (cases "n < 10")
    case True
    then show ?thesis
      by (subst natToString.simps) (simp add: digitVals_def digitsValue_def of_char_digitChar)
  next
    case False
    have "digitsValue 10 (digitVals (natToString n))
        = digitsValue 10 (digitVals (natToString (n div 10)) @ [n mod 10])"
      using False by (subst natToString.simps) (simp add: digitVals_def of_char_digitChar)
    also have "\<dots> = (n div 10) * 10 + n mod 10"
      using 1 False by (simp add: digitsValue_snoc)
    finally show ?thesis by simp
  qed
qed

lemma parseInt_numeral:
  assumes "s \<noteq> []" "list_all isDigit s"
  shows "parseInt s = Some (int (digitsValue 10 (digitVals s)))"
proof -
  obtain c r where s: "s = c # r" using assms(1) by (cases s) auto
  have c: "isDigit c" using assms(2) s by simp
  have ts: "trimStart s = s" using c s by (simp add: trimStart_def isDigit_not_special)
  have nohex: "take 2 s \<noteq> ''0x'' \<and> take 2 s \<noteq> ''0X''"
  proof (cases r)
    case Nil
    then show ?thesis using s by simp
  next
    case (Cons d r')
    then have "isDigit d" using assms(2) s by simp
    then show ?thesis using s Cons isDigit_not_special [of d] by auto
  qed
  have td: "takeDigits 10 s = digitVals s"
    using takeDigits_digits [OF assms(2), of "[]"] by simp
  have ne: "digitVals s \<noteq> []" using assms(1) by (simp add: digitVals_def)
  have sg: "(case s of c # _ \<Rightarrow> if c = CHR ''-'' then - 1 else (1 :: int) | [] \<Rightarrow> 1) = 1"
    using s isDigit_not_special [OF c] by simp
  have s1: "(case s of c # r \<Rightarrow> if c = CHR ''-'' \<or> c = CHR ''+'' then r else s | [] \<Rightarrow> s) = s"
    using s isDigit_not_special [OF c] by simp
  show ?thesis
    unfolding parseInt_def Let_def ts sg s1
    using nohex td ne by simp
qed

lemma parseInt_natToString: "parseInt (natToString n) = Some (int n)"
  using parseInt_numeral [of "natToString n"] natToString_digits [of n]
  by (simp add: digitsValue_natToString)

lemma trim_id:
  assumes "s \<noteq> []" "\<not> isWhiteSpace (hd s)" "\<not> isWhiteSpace (last s)"
  shows "trim s = s"
proof -
  have a: "dropWhile isWhiteSpace s = s" using assms(1,2) by (cases s) auto
  have b: "dropWhile isWhiteSpace (rev s) = rev s"
    using assms(1,3) by (cases "rev s") (auto simp: last_rev [symmetric] hd_rev)
  show ?thesis by (simp add: trim_def a b)
qed

lemma trim_numeral: "s \<noteq> [] \<Longrightarrow> list_all isDigit s \<Longrightarrow> trim s = s"
proof (rule trim_id)
  assume a: "s \<noteq> []" "list_all isDigit s"
  show "s \<noteq> []" by fact
  have "isDigit (hd s)" using a by (cases s) auto
  then show "\<not> isWhiteSpace (hd s)" by (simp add: isDigit_not_special)
  have "last s \<in> set s" using a by simp
  then have "isDigit (last s)" using a(2) by (simp add: list_all_iff)
  then show "\<not> isWhiteSpace (last s)" by (simp add: isDigit_not_special)
qed

lemma split_on_nonempty: "split_on c s \<noteq> []"
  by (induction s) (auto split: list.splits)

lemma split_on_absent: "c \<notin> set s \<Longrightarrow> split_on c s = [s]"
  by (induction s) auto

lemma split_on_append:
  "split_on c (a @ c # b) = split_on c a @ split_on c b"
proof (induction a)
  case Nil
  then show ?case by simp
next
  case (Cons x a)
  then show ?case using split_on_nonempty [of c a]
    by (cases "split_on c a") auto
qed

text \<open>
  C1. Whatever the expression and the page count, the resolver's result is sorted
  ascending and free of duplicates, and it is the sorted list of the set of pages its
  comma-separated parts contribute, so the order of the parts does not matter. Resolving
  "5,1-3,3" against any page count of at least 5 gives [1,2,3,5], and "1-3,2" against 5
  gives [1,2,3].
\<close>

theorem parsePageRange_sorted_dedup:
  "sorted (parsePageRange e n) \<and> distinct (parsePageRange e n)
   \<and> parsePageRange e n =
       sorted_list_of_set (\<Union>part \<in> set (split_on CHR '','' e). set (partPages n part))
   \<and> (5 \<le> n \<longrightarrow> parsePageRange ''5,1-3,3'' n = [1, 2, 3, 5])
   \<and> parsePageRange ''1-3,2'' 5 = [1, 2, 3]"
  using parsePageRange_sorted [of e n] parsePageRange_distinct [of e n]
    parsePageRange_sorted_list_of_set [of e n] parsePageRange_5_1to3_3 [of n]
    parsePageRange_1to3_2
  by blast

theorem parsePageRange_sorted_dedup_witness:
  "(5 :: int) \<le> 7 \<and> parsePageRange ''5,1-3,3'' 7 = [1, 2, 3, 5]
   \<and> sorted (parsePageRange ''3,1,3'' 7) \<and> distinct (parsePageRange ''3,1,3'' 7)"
  using parsePageRange_sorted_dedup [of "''3,1,3''" 7] by simp

section \<open>What each part of an expression contributes\<close>

lemma digit_not_dash: "list_all isDigit s \<Longrightarrow> CHR ''-'' \<notin> set s \<and> CHR '','' \<notin> set s"
  using isDigit_not_special by (auto simp: list_all_iff)

lemma partPages_numeral:
  assumes "s \<noteq> []" "list_all isDigit s"
  shows "partPages n s =
           (if 1 \<le> int (digitsValue 10 (digitVals s)) \<and> int (digitsValue 10 (digitVals s)) \<le> n
            then [int (digitsValue 10 (digitVals s))] else [])"
  using digit_not_dash [OF assms(2)]
  by (simp add: partPages_def trim_numeral [OF assms] parseInt_numeral [OF assms])

lemma partPages_natToString:
  "partPages n (natToString v) = (if 1 \<le> int v \<and> int v \<le> n then [int v] else [])"
  using partPages_numeral [of "natToString v" n] natToString_digits [of v]
  by (simp add: digitsValue_natToString)

lemma trim_natToString: "trim (natToString v) = natToString v"
  using natToString_digits [of v] by (simp add: trim_numeral)

lemma numeral_hd_last:
  assumes "s \<noteq> []" "list_all isDigit s"
  shows "isDigit (hd s)" "isDigit (last s)"
proof -
  show "isDigit (hd s)" using assms by (cases s) auto
  have "last s \<in> set s" using assms(1) by simp
  then show "isDigit (last s)" using assms(2) by (simp add: list_all_iff)
qed

lemma trim_range_text:
  assumes "A \<noteq> []" "list_all isDigit A" "B \<noteq> []" "list_all isDigit B"
  shows "trim (A @ CHR ''-'' # B) = A @ CHR ''-'' # B"
proof (rule trim_id)
  show "A @ CHR ''-'' # B \<noteq> []" by simp
  have "hd (A @ CHR ''-'' # B) = hd A" using assms(1) by simp
  then show "\<not> isWhiteSpace (hd (A @ CHR ''-'' # B))"
    using numeral_hd_last(1) [OF assms(1,2)] isDigit_not_special by metis
  have "last (A @ CHR ''-'' # B) = last B" using assms(3) by simp
  then show "\<not> isWhiteSpace (last (A @ CHR ''-'' # B))"
    using numeral_hd_last(2) [OF assms(3,4)] isDigit_not_special by metis
qed

lemma split_range_text:
  assumes "list_all isDigit A" "list_all isDigit B"
  shows "split_on CHR ''-'' (A @ CHR ''-'' # B) = [A, B]"
  using digit_not_dash [OF assms(1)] digit_not_dash [OF assms(2)]
  by (simp add: split_on_append split_on_absent)

lemma partPages_natToString_range:
  "partPages n (natToString a @ CHR ''-'' # natToString b) =
     (if 1 \<le> a \<and> a \<le> b \<and> int b \<le> n then [int a..int b] else [])"
proof -
  let ?A = "natToString a" and ?B = "natToString b"
  let ?t = "?A @ CHR ''-'' # ?B"
  have da: "?A \<noteq> []" "list_all isDigit ?A" and db: "?B \<noteq> []" "list_all isDigit ?B"
    using natToString_digits by auto
  have t: "trim ?t = ?t" using da db by (rule trim_range_text)
  have sp: "split_on CHR ''-'' ?t = [?A, ?B]" using da(2) db(2) by (rule split_range_text)
  have m: "map (\<lambda>s. parseInt (trim s)) (split_on CHR ''-'' ?t) = [Some (int a), Some (int b)]"
    by (simp only: sp list.map trim_natToString parseInt_natToString)
  have dash: "(CHR ''-'' \<in> set ?t) = True" by simp
  have "partPages n ?t =
          (if truthy (Some (int a)) \<and> truthy (Some (int b)) \<and> int a \<le> int b
              \<and> int a \<ge> 1 \<and> int b \<le> n
           then [int a..int b] else [])"
    unfolding partPages_def Let_def t m dash by (simp only: list.case option.case if_True)
  also have "\<dots> = (if 1 \<le> a \<and> a \<le> b \<and> int b \<le> n then [int a..int b] else [])"
  proof -
    have "(truthy (Some (int a)) \<and> truthy (Some (int b)) \<and> int a \<le> int b
              \<and> int a \<ge> 1 \<and> int b \<le> n) = (1 \<le> a \<and> a \<le> b \<and> int b \<le> n)"
      unfolding truthy_def by (simp only: option.case) linarith
    then show ?thesis by (simp only:)
  qed
  finally show ?thesis .
qed

lemma range_case_in_range:
  "set (case l of
          Some start # Some end # _ \<Rightarrow>
            if truthy (Some start) \<and> truthy (Some end) \<and> start \<le> end
               \<and> start \<ge> 1 \<and> end \<le> n
            then [start..end] else []
        | _ \<Rightarrow> []) \<subseteq> {1..n}"
  by (auto split: list.splits option.splits)

lemma single_case_in_range:
  "set (case v of
          Some pageNum \<Rightarrow> if pageNum \<ge> 1 \<and> pageNum \<le> n then [pageNum] else []
        | None \<Rightarrow> []) \<subseteq> {1..n}"
  by (auto split: option.splits)

lemma partPages_in_range: "set (partPages n part) \<subseteq> {1..n}"
proof (cases "CHR ''-'' \<in> set (trim part)")
  case True
  then show ?thesis
    unfolding partPages_def Let_def using range_case_in_range by (simp only: if_True)
next
  case False
  then show ?thesis
    unfolding partPages_def Let_def using single_case_in_range by (simp only: if_False)
qed

lemma parsePageRange_in_range: "set (parsePageRange e n) \<subseteq> {1..n}"
  using partPages_in_range by (fastforce simp: set_parsePageRange)

lemma takeDigits_no_digit: "(\<forall>c \<in> set s. \<not> isDigit c) \<Longrightarrow> takeDigits 10 s = []"
  by (cases s) (auto simp: not_isDigit_radixDigit)

lemma no_zero_no_hex:
  "CHR ''0'' \<notin> set t \<Longrightarrow> (take 2 t = ''0x'' \<or> take 2 t = ''0X'') = False"
  by (cases t) auto

lemma parseInt_no_digit:
  assumes "\<forall>c \<in> set s. \<not> isDigit c"
  shows "parseInt s = None"
proof -
  define S1 where
    "S1 = (case trimStart s of
             c # r \<Rightarrow> if c = CHR ''-'' \<or> c = CHR ''+'' then r else trimStart s
           | [] \<Rightarrow> trimStart s)"
  have S: "set (trimStart s) \<subseteq> set s"
    unfolding trimStart_def by (meson set_dropWhileD subsetI)
  have S1: "set S1 \<subseteq> set s"
  proof (cases "trimStart s")
    case Nil
    then show ?thesis by (simp add: S1_def)
  next
    case (Cons c r)
    then have "set S1 \<subseteq> set (trimStart s)" by (auto simp: S1_def)
    then show ?thesis using S by blast
  qed
  have zero: "isDigit CHR ''0''" by (simp add: isDigit_def)
  have "CHR ''0'' \<notin> set S1" using S1 assms zero by blast
  then have nohex: "(take 2 S1 = ''0x'' \<or> take 2 S1 = ''0X'') = False"
    by (rule no_zero_no_hex)
  have td: "takeDigits 10 S1 = []" using S1 assms by (intro takeDigits_no_digit) blast
  have "parseInt s =
          (if takeDigits (if take 2 S1 = ''0x'' \<or> take 2 S1 = ''0X'' then 16 else 10)
                (if take 2 S1 = ''0x'' \<or> take 2 S1 = ''0X'' then drop 2 S1 else S1) = []
           then None
           else Some ((case trimStart s of c # _ \<Rightarrow> if c = CHR ''-'' then - 1 else 1 | [] \<Rightarrow> 1)
                  * int (digitsValue (if take 2 S1 = ''0x'' \<or> take 2 S1 = ''0X'' then 16 else 10)
                     (takeDigits (if take 2 S1 = ''0x'' \<or> take 2 S1 = ''0X'' then 16 else 10)
                        (if take 2 S1 = ''0x'' \<or> take 2 S1 = ''0X'' then drop 2 S1 else S1)))))"
    unfolding parseInt_def Let_def S1_def ..
  then show ?thesis by (simp only: nohex if_False td if_True simp_thms)
qed

lemma set_trim: "set (trim s) \<subseteq> set s"
  by (auto simp: trim_def dest!: set_dropWhileD)

lemma split_on_pieces: "p \<in> set (split_on c s) \<Longrightarrow> set p \<subseteq> set s"
proof (induction s arbitrary: p)
  case Nil
  then show ?case by simp
next
  case (Cons x s)
  show ?case
  proof (cases "x = c")
    case True
    with Cons show ?thesis by auto
  next
    case False
    obtain t ts where sp: "split_on c s = t # ts"
      using split_on_nonempty [of c s] by (cases "split_on c s") auto
    with False Cons.prems have "p = x # t \<or> p \<in> set ts" by simp
    then show ?thesis using Cons.IH [of t] Cons.IH [of p] sp by auto
  qed
qed

lemma partPages_no_digit:
  assumes "\<forall>c \<in> set part. \<not> isDigit c"
  shows "partPages n part = []"
proof -
  have t: "\<forall>c \<in> set (trim part). \<not> isDigit c" using assms set_trim by blast
  have single: "parseInt (trim part) = None" using t by (rule parseInt_no_digit)
  have pieces: "parseInt (trim p) = None" if "p \<in> set (split_on CHR ''-'' (trim part))" for p
  proof (rule parseInt_no_digit)
    show "\<forall>c \<in> set (trim p). \<not> isDigit c"
      using t split_on_pieces [OF that] set_trim [of p] by blast
  qed
  show ?thesis
  proof (cases "split_on CHR ''-'' (trim part)")
    case Nil
    then show ?thesis using split_on_nonempty by blast
  next
    case (Cons p ps)
    then have "parseInt (trim p) = None" using pieces by simp
    then show ?thesis using Cons single by (simp add: partPages_def Let_def)
  qed
qed

lemma parsePageRange_no_digit:
  assumes "\<forall>c \<in> set e. \<not> isDigit c"
  shows "parsePageRange e n = []"
proof -
  have "partPages n part = []" if "part \<in> set (split_on CHR '','' e)" for part
    using assms split_on_pieces [OF that] by (intro partPages_no_digit) blast
  then have "set (parsePageRange e n) = {}" by (simp add: set_parsePageRange)
  then show ?thesis by simp
qed

lemma foldl_setAdd_distinct_id: "distinct (acc @ xs) \<Longrightarrow> foldl setAdd acc xs = acc @ xs"
proof (induction xs arbitrary: acc)
  case Nil
  then show ?case by simp
next
  case (Cons x xs)
  have "setAdd acc x = acc @ [x]" using Cons.prems by (simp add: setAdd_def)
  moreover have "distinct ((acc @ [x]) @ xs)" using Cons.prems by simp
  ultimately show ?case using Cons.IH [of "acc @ [x]"] by simp
qed

lemma newSet_distinct_id: "distinct xs \<Longrightarrow> newSet xs = xs"
  using foldl_setAdd_distinct_id [of "[]" xs] by (simp add: newSet_def)

lemma sort_newSet_id: "sorted xs \<Longrightarrow> distinct xs \<Longrightarrow> sort (newSet xs) = xs"
  by (simp add: newSet_distinct_id sort_key_id_if_sorted)

lemma parsePageRange_single_part:
  assumes "CHR '','' \<notin> set tok"
  shows "parsePageRange tok n = sort (newSet (partPages n tok))"
  by (simp add: parsePageRange_concat split_on_absent [OF assms])

lemma parsePageRange_natToString:
  "parsePageRange (natToString v) n = (if 1 \<le> int v \<and> int v \<le> n then [int v] else [])"
proof -
  have "CHR '','' \<notin> set (natToString v)"
    using natToString_digits [of v] digit_not_dash by blast
  then show ?thesis
    by (simp add: parsePageRange_single_part partPages_natToString sort_newSet_id)
qed

lemma parsePageRange_natToString_range:
  "parsePageRange (natToString a @ CHR ''-'' # natToString b) n =
     (if 1 \<le> a \<and> a \<le> b \<and> int b \<le> n then [int a..int b] else [])"
proof -
  have "CHR '','' \<notin> set (natToString a)" "CHR '','' \<notin> set (natToString b)"
    using natToString_digits digit_not_dash by blast+
  then have "CHR '','' \<notin> set (natToString a @ CHR ''-'' # natToString b)" by simp
  then have "parsePageRange (natToString a @ CHR ''-'' # natToString b) n =
      sort (newSet (partPages n (natToString a @ CHR ''-'' # natToString b)))"
    by (rule parsePageRange_single_part)
  also have "\<dots> = (if 1 \<le> a \<and> a \<le> b \<and> int b \<le> n then [int a..int b] else [])"
    by (simp add: partPages_natToString_range sort_newSet_id)
  finally show ?thesis .
qed



lemma numberToString_pos: "1 \<le> x \<Longrightarrow> numberToString x = natToString (nat x)"
  by (simp add: numberToString_def)

lemma split_on_joinWith:
  assumes "strs \<noteq> []" "\<forall>s \<in> set strs. c \<notin> set s"
  shows "split_on c (joinWith c strs) = strs"
  using assms
proof (induction c strs rule: joinWith.induct)
  case (1 c)
  then show ?case by simp
next
  case (2 c s)
  then show ?case by (simp add: split_on_absent)
next
  case (3 c s t ts)
  then show ?case by (simp add: split_on_append split_on_absent)
qed

lemma partPages_numberToString:
  assumes "1 \<le> x" "x \<le> n"
  shows "partPages n (numberToString x) = [x]"
  using assms by (simp add: numberToString_pos partPages_natToString)

lemma concat_partPages_numberToString:
  "set xs \<subseteq> {1..n} \<Longrightarrow> concat (map (partPages n \<circ> numberToString) xs) = xs"
  by (induction xs) (simp_all add: partPages_numberToString)

lemma partPages_empty: "partPages n [] = []"
  by (simp add: partPages_def trim_def parseInt_def trimStart_def)

lemma parsePageRange_stringify:
  assumes "sorted xs" "distinct xs" "set xs \<subseteq> {1..n}"
  shows "parsePageRange (stringify xs) n = xs"
proof (cases "xs = []")
  case True
  then show ?thesis
    by (simp add: stringify_def parsePageRange_concat partPages_empty newSet_def)
next
  case False
  have nocomma: "\<forall>s \<in> set (map numberToString xs). CHR '','' \<notin> set s"
  proof
    fix s assume "s \<in> set (map numberToString xs)"
    then obtain x where x: "x \<in> set xs" "s = numberToString x" by auto
    then have "1 \<le> x" using assms(3) by auto
    then have "s = natToString (nat x)" using x by (simp add: numberToString_pos)
    then show "CHR '','' \<notin> set s" using natToString_digits digit_not_dash by blast
  qed
  have "split_on CHR '','' (stringify xs) = map numberToString xs"
    unfolding stringify_def using False nocomma by (intro split_on_joinWith) auto
  then show ?thesis
    using assms by (simp add: parsePageRange_concat concat_partPages_numberToString sort_newSet_id)
qed

section \<open>Reading a token\<close>







lemma trimEnd_snoc: "\<not> isWhiteSpace c \<Longrightarrow> trimEnd (X @ [c]) = X @ [c]"
  by (simp add: trimEnd_def)




lemma set_trimEnd: "set (trimEnd s) \<subseteq> set s"
  unfolding trimEnd_def by (metis set_dropWhileD set_rev subsetI)







































text \<open>
  C9. Resolving an expression, writing the result back as a comma-separated expression
  and resolving that against the same page count gives the same list; the resolver is a
  function of its two arguments only.
\<close>

theorem parsePageRange_stringify_idempotent:
  "parsePageRange (stringify (parsePageRange e n)) n = parsePageRange e n"
  using parsePageRange_sorted parsePageRange_distinct parsePageRange_in_range
  by (rule parsePageRange_stringify)

theorem parsePageRange_stringify_idempotent_witness:
  "parsePageRange (stringify (parsePageRange ''5,1-3,3'' 7)) 7 = [1, 2, 3, 5]"
proof -
  have v: "parsePageRange ''5,1-3,3'' 7 = [1, 2, 3, 5]" by code_simp
  show ?thesis
    using parsePageRange_stringify_idempotent [of "''5,1-3,3''" 7] by (simp only: v)
qed

section \<open>Merging\<close>

lemma copyPages_all: "copyPages pdf (getPageIndices pdf) = Some pdf"
proof -
  have "list_all (\<lambda>i. 0 \<le> i \<and> i < int (length pdf)) (map int [0..<length pdf])"
    by (simp add: list_all_iff)
  moreover have "map (\<lambda>i. pdf ! nat i) (map int [0..<length pdf]) = pdf"
    by (simp add: map_nth o_def)
  ultimately show ?thesis by (simp add: copyPages_def getPageIndices_def)
qed

lemma find_by_id:
  "distinct (map uf_id fs) \<Longrightarrow> g \<in> set fs \<Longrightarrow> find (\<lambda>f. uf_id f = uf_id g) fs = Some g"
proof (induction fs)
  case Nil
  then show ?case by simp
next
  case (Cons f fs)
  show ?case
  proof (cases "f = g")
    case True
    then show ?thesis by simp
  next
    case False
    then have g: "g \<in> set fs" using Cons.prems by simp
    then have "uf_id f \<noteq> uf_id g" using Cons.prems(1) by force
    then show ?thesis using Cons g by simp
  qed
qed

lemma mergeLoop_all_loaded:
  assumes "distinct (map uf_id fs)" "set gs \<subseteq> set fs"
    "\<forall>g \<in> set gs. load (f_content (uf_file g)) = Some (pagesOf g)"
  shows "mergeLoop load fs (map uf_id gs) merged = Inr (merged @ concat (map pagesOf gs))"
  using assms(2,3)
proof (induction gs arbitrary: merged)
  case Nil
  then show ?case by simp
next
  case (Cons g gs)
  have f: "find (\<lambda>f. uf_id f = uf_id g) fs = Some g"
    using find_by_id [OF assms(1)] Cons.prems(1) by simp
  have l: "load (f_content (uf_file g)) = Some (pagesOf g)" using Cons.prems(2) by simp
  have "mergeLoop load fs (map uf_id (g # gs)) merged
          = mergeLoop load fs (map uf_id gs) (merged @ pagesOf g)"
    by (simp add: f l copyPages_all)
  then show ?case using Cons by simp
qed

lemma mergeLoop_load_fails:
  assumes "distinct (map uf_id fs)" "set gs \<subseteq> set fs"
    "\<exists>g \<in> set gs. load (f_content (uf_file g)) = None"
  shows "mergeLoop load fs (map uf_id gs) merged = Inl LoadError"
  using assms(2,3)
proof (induction gs arbitrary: merged)
  case Nil
  then show ?case by simp
next
  case (Cons g gs)
  have f: "find (\<lambda>f. uf_id f = uf_id g) fs = Some g"
    using find_by_id [OF assms(1)] Cons.prems(1) by simp
  show ?case
  proof (cases "load (f_content (uf_file g))")
    case None
    then show ?thesis by (simp add: f)
  next
    case (Some pdf)
    then have "\<exists>g \<in> set gs. load (f_content (uf_file g)) = None" using Cons.prems(2) by auto
    then have "mergeLoop load fs (map uf_id gs) (merged @ pdf) = Inl LoadError"
      using Cons.IH Cons.prems(1) by simp
    then show ?thesis by (simp add: f Some copyPages_all)
  qed
qed

lemma mergePDFs_outcome:
  "mergePDFs load save st =
     (if length (files st) < 2 then
        (Rejected, st\<lparr>toasts := toasts st @ [\<lparr>title = ''Not enough files'',
              description = ''Please select at least 2 PDF files to merge'',
              destructive = True\<rparr>]\<rparr>)
      else case mergeLoop load (files st) (mergeOrder st) [] of
        Inl e \<Rightarrow> (Failed e, st\<lparr>isProcessing := False,
                 toasts := toasts st @ [\<lparr>title = ''Merge failed'',
                   description = ''An error occurred during PDF merging'',
                   destructive = True\<rparr>]\<rparr>)
      | Inr mergedPdf \<Rightarrow>
          if save mergedPdf then
            (Done, st\<lparr>isProcessing := False,
                     downloads := downloads st
                       @ [\<lparr>d_name = ''merged_document.pdf'', d_pages = mergedPdf\<rparr>],
                     toasts := toasts st @ [\<lparr>title = ''Merge completed'',
                       description = natToString (length (files st))
                         @ '' PDF files merged successfully'',
                       destructive = False\<rparr>]\<rparr>)
          else (Failed SaveError, st\<lparr>isProcessing := False,
                 toasts := toasts st @ [\<lparr>title = ''Merge failed'',
                   description = ''An error occurred during PDF merging'',
                   destructive = True\<rparr>]\<rparr>))"
  unfolding mergePDFs_def Let_def by (simp split: sum.split)

lemma mergePDFs_failure_no_download:
  "fst (mergePDFs load save st) \<noteq> Done \<Longrightarrow> downloads (snd (mergePDFs load save st)) = downloads st"
  unfolding mergePDFs_outcome by (auto split: if_splits sum.splits)



lemma mergePDFs_done:
  assumes "distinct (map uf_id (files st))" "set gs \<subseteq> set (files st)"
    "mergeOrder st = map uf_id gs" "2 \<le> length (files st)"
    "\<forall>g \<in> set gs. load (f_content (uf_file g)) = Some (pagesOf g)"
    "save (concat (map pagesOf gs))"
  shows "fst (mergePDFs load save st) = Done"
    and "downloads (snd (mergePDFs load save st)) = downloads st
           @ [\<lparr>d_name = ''merged_document.pdf'', d_pages = concat (map pagesOf gs)\<rparr>]"
proof -
  have m: "mergeLoop load (files st) (mergeOrder st) [] = Inr (concat (map pagesOf gs))"
    using mergeLoop_all_loaded [OF assms(1,2,5), of "[]"] assms(3) by simp
  show "fst (mergePDFs load save st) = Done"
    unfolding mergePDFs_outcome using assms(4,6) by (simp add: m)
  show "downloads (snd (mergePDFs load save st)) = downloads st
           @ [\<lparr>d_name = ''merged_document.pdf'', d_pages = concat (map pagesOf gs)\<rparr>]"
    unfolding mergePDFs_outcome using assms(4,6) by (simp add: m)
qed

lemma mergePDFs_load_fails:
  assumes "distinct (map uf_id (files st))" "set gs \<subseteq> set (files st)"
    "mergeOrder st = map uf_id gs" "2 \<le> length (files st)"
    "\<exists>g \<in> set gs. load (f_content (uf_file g)) = None"
  shows "fst (mergePDFs load save st) = Failed LoadError"
proof -
  have m: "mergeLoop load (files st) (mergeOrder st) [] = Inl LoadError"
    using mergeLoop_load_fails [OF assms(1,2,5), of "[]"] assms(3) by simp
  show ?thesis unfolding mergePDFs_outcome using assms(4) by (simp add: m)
qed

lemma concat_skip_empty: "concat (map f (filter (\<lambda>g. f g \<noteq> []) gs)) = concat (map f gs)"
  by (induction gs) auto

section \<open>Splitting and compressing\<close>

lemma trim_empty_all_space:
  assumes "trim s = []"
  shows "\<forall>c \<in> set s. isWhiteSpace c"
proof -
  have "dropWhile isWhiteSpace (rev (dropWhile isWhiteSpace s)) = []"
    using assms by (simp add: trim_def)
  then have a: "\<forall>c \<in> set (dropWhile isWhiteSpace s). isWhiteSpace c"
    by (simp add: dropWhile_eq_Nil_conv)
  have "dropWhile isWhiteSpace s = []"
  proof (cases "dropWhile isWhiteSpace s")
    case Nil
    then show ?thesis .
  next
    case (Cons c r)
    then have "\<not> isWhiteSpace c" using hd_dropWhile [of isWhiteSpace s] by auto
    then show ?thesis using a Cons by simp
  qed
  then show ?thesis by (simp add: dropWhile_eq_Nil_conv)
qed

lemma blank_no_pages:
  assumes "trim s = []"
  shows "parsePageRange s n = []"
proof (rule parsePageRange_no_digit)
  show "\<forall>c \<in> set s. \<not> isDigit c"
    using trim_empty_all_space [OF assms] isDigit_not_special by blast
qed

lemma copyPages_one:
  "1 \<le> p \<Longrightarrow> p \<le> int (length pdf) \<Longrightarrow> copyPages pdf [p - 1] = Some [pdf ! nat (p - 1)]"
  by (simp add: copyPages_def)

lemma splitLoop_ok:
  assumes "\<forall>p \<in> set sel. 1 \<le> p \<and> p \<le> int (length pdf) \<and> save [pdf ! nat (p - 1)]"
  shows "splitLoop save pdf fname sel =
           (map (\<lambda>p. \<lparr>d_name = baseName fname @ ''_page_'' @ numberToString p @ ''.pdf'',
                       d_pages = [pdf ! nat (p - 1)]\<rparr>) sel, None)"
  using assms
proof (induction sel)
  case Nil
  then show ?case by simp
next
  case (Cons p sel)
  then have c: "copyPages pdf [p - 1] = Some [pdf ! nat (p - 1)]"
    by (simp add: copyPages_one)
  have s: "save [pdf ! nat (p - 1)]" using Cons.prems by simp
  show ?case using Cons by (simp add: c s Let_def)
qed


lemma splitBody_empty_range:
  assumes "load (f_content (uf_file file)) = Some pdf"
    "parsePageRange (splitRange st) (int (length pdf)) = []"
  shows "splitBody load save st file = ([], Inl InvalidPageRange)"
  using assms by (simp add: splitBody_def)


lemma splitBody_individual:
  assumes "load (f_content (uf_file file)) = Some pdf"
    "splitMode st \<noteq> ''range''"
    "parsePageRange (splitRange st) (int (length pdf)) = sel" "sel \<noteq> []"
    "\<forall>p \<in> set sel. save [pdf ! nat (p - 1)]"
  shows "splitBody load save st file =
           (map (\<lambda>p. \<lparr>d_name = baseName (uf_name file) @ ''_page_'' @ numberToString p
                                  @ ''.pdf'',
                       d_pages = [pdf ! nat (p - 1)]\<rparr>) sel, Inr (length sel))"
proof -
  have "set sel \<subseteq> {1..int (length pdf)}"
    using parsePageRange_in_range [of "splitRange st" "int (length pdf)"] assms(3) by simp
  then have "\<forall>p \<in> set sel. 1 \<le> p \<and> p \<le> int (length pdf) \<and> save [pdf ! nat (p - 1)]"
    using assms(5) by auto
  then have l: "splitLoop save pdf (uf_name file) sel =
           (map (\<lambda>p. \<lparr>d_name = baseName (uf_name file) @ ''_page_'' @ numberToString p
                                  @ ''.pdf'',
                       d_pages = [pdf ! nat (p - 1)]\<rparr>) sel, None)"
    by (rule splitLoop_ok)
  show ?thesis using assms(1-4) by (simp add: splitBody_def l)
qed



lemma splitPDF_single:
  assumes "files st = [file]" "trim (splitRange st) \<noteq> []"
  shows "fst (splitPDF load save st) =
            (case snd (splitBody load save st file) of Inl e \<Rightarrow> Failed e | Inr k \<Rightarrow> Done)"
    and "downloads (snd (splitPDF load save st)) = downloads st @ fst (splitBody load save st file)"
    and "destructive (last (toasts (snd (splitPDF load save st))))
           = isl (snd (splitBody load save st file))"
  using assms
  by (auto simp: splitPDF_def split: prod.splits sum.splits)

lemma splitPDF_blank:
  assumes "files st = [file]" "trim (splitRange st) = []"
  shows "fst (splitPDF load save st) = Rejected"
    and "downloads (snd (splitPDF load save st)) = downloads st"
    and "destructive (last (toasts (snd (splitPDF load save st))))"
  using assms by (auto simp: splitPDF_def)





text \<open>
  C3. When the page list resolved from the expression is empty, the split fails: with a
  blank expression it is turned away before the document is read, otherwise the body
  throws "Invalid page range"; either way a destructive toast is shown and no file is
  handed to the browser.
\<close>

theorem splitPDF_empty_range_fails:
  assumes "files st = [upl]" "load (f_content (uf_file upl)) = Some pdf"
    "parsePageRange (splitRange st) (int (length pdf)) = []"
  shows "fst (splitPDF load save st)
           = (if trim (splitRange st) = [] then Rejected else Failed InvalidPageRange)
         \<and> downloads (snd (splitPDF load save st)) = downloads st
         \<and> destructive (last (toasts (snd (splitPDF load save st))))"
proof (cases "trim (splitRange st) = []")
  case True
  then show ?thesis using splitPDF_blank [OF assms(1) True, of load save] by simp
next
  case False
  have b: "splitBody load save st upl = ([], Inl InvalidPageRange)"
    using assms(2,3) by (rule splitBody_empty_range)
  show ?thesis using splitPDF_single [OF assms(1) False, of load save] False by (simp add: b)
qed

theorem splitPDF_empty_range_fails_witness:
  "parsePageRange ''10'' (int (length [1, 2, 3, 4, 5 :: nat])) = []
   \<and> fst (splitPDF Some (\<lambda>_. True) (mount [pdfFile ''a'' ''a.pdf'' [1, 2, 3, 4, 5 :: nat]]
             ''10'' ''range'')) = Failed InvalidPageRange
   \<and> downloads (snd (splitPDF Some (\<lambda>_. True)
        (mount [pdfFile ''a'' ''a.pdf'' [1, 2, 3, 4, 5 :: nat]] ''10'' ''range''))) = []"
proof -
  have p: "parsePageRange ''10'' 5 = []" by code_simp
  have t: "trim ''10'' = ''10''" by code_simp
  show ?thesis
    using splitPDF_empty_range_fails [where st = "mount [pdfFile ''a'' ''a.pdf'' [1, 2, 3, 4, 5 :: nat]]
          ''10'' ''range''" and upl = "pdfFile ''a'' ''a.pdf'' [1, 2, 3, 4, 5 :: nat]"
        and load = Some and pdf = "[1, 2, 3, 4, 5 :: nat]" and save = "\<lambda>_. True"]
    by (simp add: mount_def pdfFile_def p t)
qed

text \<open>
  C4. With distinct file ids, every listed document loading and the result saving, merge
  hands over one document whose pages are those of the documents in merge order, each
  document's pages in their own order. For two documents A and B the first
  \<open>A.pageCount\<close> pages of the result are A's pages and the rest are B's.
\<close>

theorem mergePDFs_concatenates_in_order:
  assumes "distinct (map uf_id (files st))" "set gs \<subseteq> set (files st)"
    "mergeOrder st = map uf_id gs" "2 \<le> length (files st)"
    "\<forall>g \<in> set gs. load (f_content (uf_file g)) = Some (pagesOf g)"
    "save (concat (map pagesOf gs))"
  shows "fst (mergePDFs load save st) = Done
         \<and> downloads (snd (mergePDFs load save st)) = downloads st
              @ [\<lparr>d_name = ''merged_document.pdf'', d_pages = concat (map pagesOf gs)\<rparr>]
         \<and> (gs = [A, B] \<longrightarrow>
              take (length (pagesOf A)) (concat (map pagesOf gs)) = pagesOf A
              \<and> drop (length (pagesOf A)) (concat (map pagesOf gs)) = pagesOf B)"
  using mergePDFs_done [where pagesOf = pagesOf and load = load and save = save, OF assms]
  by simp

theorem mergePDFs_concatenates_in_order_witness:
  "fst (mergePDFs Some (\<lambda>_. True)
          (mount [pdfFile ''a'' ''a.pdf'' [1, 2 :: nat], pdfFile ''b'' ''b.pdf'' [3]] [] [])) = Done
   \<and> map d_pages (downloads (snd (mergePDFs Some (\<lambda>_. True)
          (mount [pdfFile ''a'' ''a.pdf'' [1, 2 :: nat], pdfFile ''b'' ''b.pdf'' [3]] [] []))))
       = [[1, 2, 3]]
   \<and> take 2 [1, 2, 3 :: nat] = [1, 2]"
  using mergePDFs_concatenates_in_order
    [where st = "mount [pdfFile ''a'' ''a.pdf'' [1, 2 :: nat], pdfFile ''b'' ''b.pdf'' [3]] [] []"
       and gs = "[pdfFile ''a'' ''a.pdf'' [1, 2 :: nat], pdfFile ''b'' ''b.pdf'' [3]]"
       and load = Some and save = "\<lambda>_. True" and pagesOf = "\<lambda>f. f_content (uf_file f)"
       and A = "pdfFile ''a'' ''a.pdf'' [1, 2 :: nat]" and B = "pdfFile ''b'' ''b.pdf'' [3]"]
  by (simp add: mount_def pdfFile_def)

text \<open>
  C5 (as stated, refuted). Merging a document with zero pages and a document with one
  page succeeds and hands over the one-page result.
\<close>

theorem mergePDFs_empty_document_counterexample:
  "f_content (uf_file (pdfFile ''a'' ''a.pdf'' ([] :: nat list))) = []
   \<and> fst (mergePDFs Some (\<lambda>_. True)
          (mount [pdfFile ''a'' ''a.pdf'' [], pdfFile ''b'' ''b.pdf'' [7 :: nat]] [] [])) = Done
   \<and> map d_pages (downloads (snd (mergePDFs Some (\<lambda>_. True)
          (mount [pdfFile ''a'' ''a.pdf'' [], pdfFile ''b'' ''b.pdf'' [7 :: nat]] [] []))))
       = [[7]]"
  by (simp add: mergePDFs_outcome mount_def pdfFile_def copyPages_all)

text \<open>
  C5 (amended). Merge does not look at page counts. With distinct file ids and at least
  two files: when every listed document loads and the result saves, merge succeeds, also
  with zero-page inputs, and the downloaded file holds the pages of the inputs that have
  pages, in merge order, or the one blank page that \<open>save\<close> adds when no input has a
  page; when a listed document cannot be loaded, merge fails and hands over nothing.
\<close>

theorem mergePDFs_ignores_empty_documents:
  assumes "distinct (map uf_id (files st))" "set gs \<subseteq> set (files st)"
    "mergeOrder st = map uf_id gs" "2 \<le> length (files st)"
  shows "((\<forall>g \<in> set gs. load (f_content (uf_file g)) = Some (pagesOf g))
            \<and> save (concat (map pagesOf gs)) \<longrightarrow>
          fst (mergePDFs load save st) = Done
          \<and> downloads (snd (mergePDFs load save st)) = downloads st
               @ [\<lparr>d_name = ''merged_document.pdf'', d_pages = concat (map pagesOf gs)\<rparr>]
          \<and> savedPages blank (concat (map pagesOf gs))
              = (if \<forall>g \<in> set gs. pagesOf g = [] then [blank]
                 else concat (map pagesOf (filter (\<lambda>g. pagesOf g \<noteq> []) gs))))
         \<and> ((\<exists>g \<in> set gs. load (f_content (uf_file g)) = None) \<longrightarrow>
              fst (mergePDFs load save st) = Failed LoadError
              \<and> downloads (snd (mergePDFs load save st)) = downloads st)"
proof (intro conjI impI)
  assume a: "(\<forall>g \<in> set gs. load (f_content (uf_file g)) = Some (pagesOf g))
               \<and> save (concat (map pagesOf gs))"
  then have l: "\<forall>g \<in> set gs. load (f_content (uf_file g)) = Some (pagesOf g)"
    and s: "save (concat (map pagesOf gs))" by simp_all
  show "fst (mergePDFs load save st) = Done"
    using mergePDFs_done(1) [where pagesOf = pagesOf and load = load and save = save, OF assms l s] .
  show "downloads (snd (mergePDFs load save st)) = downloads st
               @ [\<lparr>d_name = ''merged_document.pdf'', d_pages = concat (map pagesOf gs)\<rparr>]"
    using mergePDFs_done(2) [where pagesOf = pagesOf and load = load and save = save, OF assms l s] .
  show "savedPages blank (concat (map pagesOf gs))
              = (if \<forall>g \<in> set gs. pagesOf g = [] then [blank]
                 else concat (map pagesOf (filter (\<lambda>g. pagesOf g \<noteq> []) gs)))"
  proof (cases "\<forall>g \<in> set gs. pagesOf g = []")
    case True
    then have "concat (map pagesOf gs) = []" by simp
    then show ?thesis using True by (simp add: savedPages_def)
  next
    case False
    then have "concat (map pagesOf gs) \<noteq> []" by simp
    then show ?thesis using False by (auto simp: savedPages_def concat_skip_empty)
  qed
next
  assume a: "\<exists>g \<in> set gs. load (f_content (uf_file g)) = None"
  show f: "fst (mergePDFs load save st) = Failed LoadError"
    using mergePDFs_load_fails [where load = load, OF assms a] .
  show "downloads (snd (mergePDFs load save st)) = downloads st"
    using f by (intro mergePDFs_failure_no_download) simp
qed

theorem mergePDFs_ignores_empty_documents_witness:
  "fst (mergePDFs Some (\<lambda>_. True)
          (mount [pdfFile ''a'' ''a.pdf'' [], pdfFile ''b'' ''b.pdf'' [7 :: nat],
                  pdfFile ''c'' ''c.pdf'' [8, 9]] [] [])) = Done
   \<and> map d_pages (downloads (snd (mergePDFs Some (\<lambda>_. True)
          (mount [pdfFile ''a'' ''a.pdf'' [], pdfFile ''b'' ''b.pdf'' [7 :: nat],
                  pdfFile ''c'' ''c.pdf'' [8, 9]] [] []))))
       = [[7, 8, 9]]
   \<and> savedPages 0 [7, 8, 9 :: nat] = [7, 8, 9]
   \<and> fst (mergePDFs Some (\<lambda>_. True)
          (mount [pdfFile ''a'' ''a.pdf'' ([] :: nat list), pdfFile ''b'' ''b.pdf'' []] [] []))
       = Done
   \<and> map (savedPages 0 \<circ> d_pages) (downloads (snd (mergePDFs Some (\<lambda>_. True)
          (mount [pdfFile ''a'' ''a.pdf'' ([] :: nat list), pdfFile ''b'' ''b.pdf'' []] [] []))))
       = [[0]]
   \<and> fst (mergePDFs (\<lambda>c. if c = [] then None else Some c) (\<lambda>_. True)
          (mount [pdfFile ''a'' ''a.pdf'' [], pdfFile ''b'' ''b.pdf'' [7 :: nat],
                  pdfFile ''c'' ''c.pdf'' [8, 9]] [] [])) = Failed LoadError"
  using mergePDFs_ignores_empty_documents
    [where st = "mount [pdfFile ''a'' ''a.pdf'' [], pdfFile ''b'' ''b.pdf'' [7 :: nat],
                  pdfFile ''c'' ''c.pdf'' [8, 9]] [] []"
       and gs = "[pdfFile ''a'' ''a.pdf'' [], pdfFile ''b'' ''b.pdf'' [7 :: nat],
                  pdfFile ''c'' ''c.pdf'' [8, 9]]"
       and load = Some and save = "\<lambda>_. True" and pagesOf = "\<lambda>f. f_content (uf_file f)"
       and blank = 0]
    mergePDFs_ignores_empty_documents
    [where st = "mount [pdfFile ''a'' ''a.pdf'' ([] :: nat list), pdfFile ''b'' ''b.pdf'' []] [] []"
       and gs = "[pdfFile ''a'' ''a.pdf'' ([] :: nat list), pdfFile ''b'' ''b.pdf'' []]"
       and load = Some and save = "\<lambda>_. True" and pagesOf = "\<lambda>f. f_content (uf_file f)"
       and blank = 0]
    mergePDFs_ignores_empty_documents
    [where st = "mount [pdfFile ''a'' ''a.pdf'' [], pdfFile ''b'' ''b.pdf'' [7 :: nat],
                  pdfFile ''c'' ''c.pdf'' [8, 9]] [] []"
       and gs = "[pdfFile ''a'' ''a.pdf'' [], pdfFile ''b'' ''b.pdf'' [7 :: nat],
                  pdfFile ''c'' ''c.pdf'' [8, 9]]"
       and load = "\<lambda>c. if c = [] then None else Some c" and save = "\<lambda>_. True"
       and pagesOf = "\<lambda>f. f_content (uf_file f)"]
  by (simp add: mount_def pdfFile_def savedPages_def)

lemma parsePageRange_2_4:
  assumes "4 \<le> n"
  shows "parsePageRange ''2,4'' n = [2, 4]"
proof -
  have s: "split_on CHR '','' ''2,4'' = [''2'', ''4'']" by code_simp
  have n2: "natToString 2 = ''2''" and n4: "natToString 4 = ''4''" by code_simp+
  have p2: "partPages n ''2'' = [2]"
    using partPages_natToString [of n 2] assms by (simp add: n2)
  have p4: "partPages n ''4'' = [4]"
    using partPages_natToString [of n 4] assms by (simp add: n4)
  have r: "sort (newSet [2, 4 :: int]) = [2, 4]" by code_simp
  show ?thesis by (simp add: parsePageRange_concat s p2 p4 r)
qed

text \<open>
  C6. In the individual mode, with one file that loads, a non-empty resolved selection
  and every one-page document saving, the split succeeds and hands over exactly one
  one-page document per selected page, in ascending page order, each holding that page
  of the source. For "2,4" on a source of at least four pages these are page 2 and
  page 4.
\<close>

theorem splitPDF_individual_pages:
  assumes "files st = [upl]" "load (f_content (uf_file upl)) = Some pdf"
    "splitMode st \<noteq> ''range''"
    "parsePageRange (splitRange st) (int (length pdf)) = sel" "sel \<noteq> []"
    "\<forall>p \<in> set sel. save [pdf ! nat (p - 1)]"
  shows "fst (splitPDF load save st) = Done
         \<and> downloads (snd (splitPDF load save st)) = downloads st
              @ map (\<lambda>p. \<lparr>d_name = baseName (uf_name upl) @ ''_page_'' @ numberToString p
                                     @ ''.pdf'',
                          d_pages = [pdf ! nat (p - 1)]\<rparr>) sel
         \<and> sorted sel \<and> distinct sel \<and> set sel \<subseteq> {1..int (length pdf)}
         \<and> (splitRange st = ''2,4'' \<and> 4 \<le> length pdf \<longrightarrow> sel = [2, 4])"
proof -
  have nb: "trim (splitRange st) \<noteq> []"
    using blank_no_pages [of "splitRange st" "int (length pdf)"] assms(4,5) by auto
  have b: "splitBody load save st upl =
           (map (\<lambda>p. \<lparr>d_name = baseName (uf_name upl) @ ''_page_'' @ numberToString p
                                  @ ''.pdf'',
                       d_pages = [pdf ! nat (p - 1)]\<rparr>) sel, Inr (length sel))"
    using assms(2-6) by (rule splitBody_individual)
  have 1: "fst (splitPDF load save st) = Done"
    using splitPDF_single(1) [OF assms(1) nb, of load save] by (simp add: b)
  have 2: "downloads (snd (splitPDF load save st)) = downloads st
              @ map (\<lambda>p. \<lparr>d_name = baseName (uf_name upl) @ ''_page_'' @ numberToString p
                                     @ ''.pdf'',
                          d_pages = [pdf ! nat (p - 1)]\<rparr>) sel"
    using splitPDF_single(2) [OF assms(1) nb, of load save] by (simp add: b)
  have 3: "sorted sel \<and> distinct sel \<and> set sel \<subseteq> {1..int (length pdf)}"
    using parsePageRange_sorted parsePageRange_distinct parsePageRange_in_range assms(4)
    by blast
  have 4: "splitRange st = ''2,4'' \<and> 4 \<le> length pdf \<longrightarrow> sel = [2, 4]"
    using parsePageRange_2_4 [of "int (length pdf)"] assms(4) by auto
  show ?thesis using 1 2 3 4 by blast
qed

theorem splitPDF_individual_pages_witness:
  "fst (splitPDF Some (\<lambda>_. True)
          (mount [pdfFile ''a'' ''doc.v2.pdf'' [10, 20, 30, 40, 50 :: nat]]
             ''2,4'' ''individual'')) = Done
   \<and> downloads (snd (splitPDF Some (\<lambda>_. True)
          (mount [pdfFile ''a'' ''doc.v2.pdf'' [10, 20, 30, 40, 50 :: nat]]
             ''2,4'' ''individual'')))
       = [\<lparr>d_name = ''doc_page_2.pdf'', d_pages = [20]\<rparr>,
          \<lparr>d_name = ''doc_page_4.pdf'', d_pages = [40]\<rparr>]"
proof -
  have p: "parsePageRange ''2,4'' 5 = [2, 4]" by code_simp
  have b: "baseName ''doc.v2.pdf'' = ''doc''" by code_simp
  have n: "numberToString 2 = ''2''" "numberToString 4 = ''4''" by code_simp+
  show ?thesis
    using splitPDF_individual_pages
      [where st = "mount [pdfFile ''a'' ''doc.v2.pdf'' [10, 20, 30, 40, 50 :: nat]]
             ''2,4'' ''individual''"
         and upl = "pdfFile ''a'' ''doc.v2.pdf'' [10, 20, 30, 40, 50 :: nat]"
         and load = Some and pdf = "[10, 20, 30, 40, 50 :: nat]" and save = "\<lambda>_. True"
         and sel = "[2, 4]"]
    by (simp add: mount_def pdfFile_def p b n)
qed




section \<open>Rotation controls\<close>

lemma setRotation_buttons_range:
  assumes "r \<in> {- 270, - 180, - 90, 0, 90, 180, 270}" "c = RotateLeft \<or> c = RotateRight"
  shows "setRotation r c \<in> {- 270, - 180, - 90, 0, 90, 180, 270}"
  using assms by (auto simp: js_rem_def)

text \<open>
  C8. Starting from 0, one click on the counter-clockwise button stores \<open>-90\<close>, which is
  not one of 0, 90, 180, 270: \<open>%\<close> keeps the sign of \<open>prev - 90\<close>.
\<close>

theorem rotation_counterclockwise_from_zero:
  "rotationAfter [RotateLeft] = - 90 \<and> rotationAfter [RotateLeft] \<notin> {0, 90, 180, 270}"
  by (simp add: rotationAfter_def js_rem_def)

section \<open>Upload handler\<close>

lemma processFile_files:
  "map uf_file (fst (processFile newId st f)) =
     map uf_file (fst st)
       @ filter (\<lambda>f. f_size f \<le> 50 * 1024 * 1024
                      \<and> (prefix ''image/'' (f_type f) \<or> f_type f = ''application/pdf'')) [f]"
  by (simp add: processFile_def Let_def)

lemma processFile_fields:
  assumes "\<forall>u \<in> set (fst st). uf_status u = Completed \<and> uf_progress u = 100"
  shows "\<forall>u \<in> set (fst (processFile newId st f)). uf_status u = Completed \<and> uf_progress u = 100"
  using assms by (simp add: processFile_def Let_def)

lemma forEachFile_files:
  "map uf_file (fst (forEachFile ids i st fl)) =
     map uf_file (fst st)
       @ filter (\<lambda>f. f_size f \<le> 50 * 1024 * 1024
                      \<and> (prefix ''image/'' (f_type f) \<or> f_type f = ''application/pdf'')) fl"
proof (induction fl arbitrary: i st)
  case Nil
  then show ?case by simp
next
  case (Cons f fl)
  have "map uf_file (fst (forEachFile ids i st (f # fl)))
          = map uf_file (fst (processFile (ids i) st f))
            @ filter (\<lambda>f. f_size f \<le> 50 * 1024 * 1024
                      \<and> (prefix ''image/'' (f_type f) \<or> f_type f = ''application/pdf'')) fl"
    using Cons [of "Suc i" "processFile (ids i) st f"] by simp
  then show ?case by (simp only: processFile_files append_assoc filter_append [symmetric])
      simp
qed

lemma forEachFile_fields:
  assumes "\<forall>u \<in> set (fst st). uf_status u = Completed \<and> uf_progress u = 100"
  shows "\<forall>u \<in> set (fst (forEachFile ids i st fl)). uf_status u = Completed \<and> uf_progress u = 100"
  using assms
proof (induction fl arbitrary: i st)
  case Nil
  then show ?case by simp
next
  case (Cons f fl)
  show ?case using Cons.IH [OF processFile_fields [OF Cons.prems]] by simp
qed

lemma emittedFiles_processFiles:
  "emittedFiles (processFiles ids fileList) = fst (forEachFile ids 0 ([], []) fileList)"
  by (simp add: emittedFiles_def processFiles_def Let_def)

lemma emitted_None:
  "(emitted (processFiles ids fileList) = None)
     = (fst (forEachFile ids 0 ([], []) fileList) = [])"
  by (simp add: processFiles_def Let_def)

text \<open>
  C10. The files the upload handler emits are, in order, exactly the files of the list
  whose size is at most 50*1024*1024 bytes and whose type starts with "image/" or is
  "application/pdf"; each is emitted with status completed and progress 100; a rejected
  file is left out and the files after it are still examined. The callback is not
  called only when no file is accepted.
\<close>

theorem processFiles_accepts:
  "map uf_file (emittedFiles (processFiles ids fileList))
     = filter (\<lambda>f. f_size f \<le> 50 * 1024 * 1024
                    \<and> (prefix ''image/'' (f_type f) \<or> f_type f = ''application/pdf''))
         fileList
   \<and> (\<forall>u \<in> set (emittedFiles (processFiles ids fileList)).
         uf_status u = Completed \<and> uf_progress u = 100)
   \<and> ((emitted (processFiles ids fileList) = None)
        = (filter (\<lambda>f. f_size f \<le> 50 * 1024 * 1024
                    \<and> (prefix ''image/'' (f_type f) \<or> f_type f = ''application/pdf''))
             fileList = []))"
proof -
  have 1: "map uf_file (emittedFiles (processFiles ids fileList))
     = filter (\<lambda>f. f_size f \<le> 50 * 1024 * 1024
                    \<and> (prefix ''image/'' (f_type f) \<or> f_type f = ''application/pdf''))
         fileList"
    using forEachFile_files [of ids 0 "([], [])" fileList]
    by (simp add: emittedFiles_processFiles)
  have 2: "\<forall>u \<in> set (emittedFiles (processFiles ids fileList)).
         uf_status u = Completed \<and> uf_progress u = 100"
    using forEachFile_fields [of "([], [])" ids 0 fileList]
    by (simp add: emittedFiles_processFiles)
  have 3: "(emitted (processFiles ids fileList) = None)
        = (filter (\<lambda>f. f_size f \<le> 50 * 1024 * 1024
                    \<and> (prefix ''image/'' (f_type f) \<or> f_type f = ''application/pdf''))
             fileList = [])"
    using 1 by (simp add: emitted_None emittedFiles_processFiles [symmetric] del: map_is_Nil_conv)
      (metis map_is_Nil_conv)
  show ?thesis using 1 2 3 by blast
qed

theorem processFiles_accepts_witness:
  "map f_name (map uf_file (emittedFiles (processFiles (\<lambda>i. natToString i)
      [\<lparr>f_name = ''a.png'', f_size = 10, f_type = ''image/png'', f_content = ()\<rparr>,
       \<lparr>f_name = ''b.txt'', f_size = 10, f_type = ''text/plain'', f_content = ()\<rparr>,
       \<lparr>f_name = ''c.pdf'', f_size = 52428801, f_type = ''application/pdf'', f_content = ()\<rparr>,
       \<lparr>f_name = ''d.pdf'', f_size = 52428800, f_type = ''application/pdf'', f_content = ()\<rparr>])))
     = [''a.png'', ''d.pdf'']"
  using processFiles_accepts [of "\<lambda>i. natToString i"
      "[\<lparr>f_name = ''a.png'', f_size = 10, f_type = ''image/png'', f_content = ()\<rparr>,
       \<lparr>f_name = ''b.txt'', f_size = 10, f_type = ''text/plain'', f_content = ()\<rparr>,
       \<lparr>f_name = ''c.pdf'', f_size = 52428801, f_type = ''application/pdf'', f_content = ()\<rparr>,
       \<lparr>f_name = ''d.pdf'', f_size = 52428800, f_type = ''application/pdf'', f_content = ()\<rparr>]"]
  by simp

end
